theory Spec2Isabelle
  imports Main
begin

section \<open>The prefix tree of \<^verbatim>\<open>src/trie/trie.py\<close>\<close>

text \<open>
  The model follows the language as it is from Python 3.7 on: a dict is iterated in insertion
  order, and a \<^verbatim>\<open>StopIteration\<close> raised inside a generator is an error (PEP 479).
\<close>

subsection \<open>Data model\<close>

text \<open>
  Class \<^verbatim>\<open>_Entry\<close> is a \<^verbatim>\<open>dict\<close> from symbols to child entries that may carry an
  attribute \<^verbatim>\<open>value\<close>. The dict is an association list in insertion order (the order
  in which a Python dict is iterated); the attribute is an option: \<open>None\<close> is
  "the attribute does not exist", \<open>Some v\<close> is "the attribute exists and holds \<open>v\<close>",
  whatever \<open>v\<close> is.
\<close>

datatype ('k, 'v) entry =
  Entry (val: "'v option") (children: "('k \<times> ('k, 'v) entry) list")

text \<open>\<^verbatim>\<open>hasattr(self, 'value')\<close>\<close>

definition has_value :: "('k, 'v) entry \<Rightarrow> bool" where
  "has_value entry = (val entry \<noteq> None)"

text \<open>
  \<^verbatim>\<open>d[k] = x\<close> on a dict: a key that is present keeps its place, a new key goes last.
\<close>

fun dict_set :: "'k \<Rightarrow> 'a \<Rightarrow> ('k \<times> 'a) list \<Rightarrow> ('k \<times> 'a) list" where
  "dict_set k x [] = [(k, x)]"
| "dict_set k x ((k', x') # d) =
     (if k' = k then (k', x) # d else (k', x') # dict_set k x d)"

text \<open>Class \<^verbatim>\<open>Trie\<close>: the attributes \<^verbatim>\<open>_root\<close> and \<^verbatim>\<open>_length\<close>.\<close>

record ('k, 'v) trie =
  root :: "('k, 'v) entry"
  trie_length :: int

text \<open>
  The exceptions that occur: \<^verbatim>\<open>KeyError(key)\<close>, \<^verbatim>\<open>StopIteration\<close>, the
  \<^verbatim>\<open>RuntimeError\<close> of the generator protocol, the \<^verbatim>\<open>AttributeError\<close> of reading an
  attribute that does not exist, and any other exception (by its name) that a function passed
  in by the caller may raise.
\<close>

datatype 'k error =
  KeyError "'k list" | StopIteration | RuntimeError | AttributeError | Exception string

text \<open>Reading \<^verbatim>\<open>entry.value\<close>\<close>

definition attr_value :: "('k, 'v) entry \<Rightarrow> 'k error + 'v" where
  "attr_value entry = (case val entry of Some v \<Rightarrow> Inr v | None \<Rightarrow> Inl AttributeError)"

subsection \<open>Traversal\<close>

text \<open>
  The loop of \<^verbatim>\<open>_find\<close>, started at \<open>entry\<close>. The tree is owned exclusively (no entry
  has two parents), so the entry a traversal reaches is identified by the key that leads to
  it, and the in-place mutation of an entry is a rebuilt tree. The result is \<open>None\<close>
  where the source raises \<^verbatim>\<open>KeyError\<close>, and otherwise the tree below \<open>entry\<close> after
  the loop together with the entry that \<^verbatim>\<open>_find\<close> returns.
\<close>

fun find_loop ::
  "bool \<Rightarrow> ('k, 'v) entry \<Rightarrow> 'k list \<Rightarrow> (('k, 'v) entry \<times> ('k, 'v) entry) option" where
  "find_loop create entry [] = Some (entry, entry)"
| "find_loop create entry (char # key) =
     (case map_of (children entry) char of
        Some child \<Rightarrow>
          (case find_loop create child key of
             None \<Rightarrow> None
           | Some (child', dest) \<Rightarrow>
               Some (Entry (val entry) (dict_set char child' (children entry)), dest))
      | None \<Rightarrow>
          if create then
            (case find_loop create (Entry None []) key of
               None \<Rightarrow> None
             | Some (new_entry, dest) \<Rightarrow>
                 Some (Entry (val entry) (dict_set char new_entry (children entry)), dest))
          else None)"

text \<open>
  Every method takes the trie \<open>self\<close> last and returns its result (or the exception it
  raises) together with the trie it leaves behind. This one is \<^verbatim>\<open>_find\<close>.
\<close>

definition trie_find ::
  "'k list \<Rightarrow> bool \<Rightarrow> ('k, 'v) trie \<Rightarrow> ('k error + ('k, 'v) entry) \<times> ('k, 'v) trie" where
  "trie_find key create self =
     (case find_loop create (root self) key of
        None \<Rightarrow> (Inl (KeyError key), self)
      | Some (r, entry) \<Rightarrow> (Inr entry, self\<lparr>root := r\<rparr>))"

text \<open>
  A write through the reference that \<^verbatim>\<open>_find\<close> returned: \<open>f\<close> is applied to the entry
  that \<open>key\<close> leads to.
\<close>

fun modify_entry ::
  "(('k, 'v) entry \<Rightarrow> ('k, 'v) entry) \<Rightarrow> 'k list \<Rightarrow> ('k, 'v) entry \<Rightarrow> ('k, 'v) entry" where
  "modify_entry f [] entry = f entry"
| "modify_entry f (char # key) entry =
     (case map_of (children entry) char of
        Some child \<Rightarrow>
          Entry (val entry) (dict_set char (modify_entry f key child) (children entry))
      | None \<Rightarrow> entry)"

text \<open>\<^verbatim>\<open>entry.value = v\<close> and \<^verbatim>\<open>del entry.value\<close>\<close>

definition set_value :: "'v \<Rightarrow> ('k, 'v) entry \<Rightarrow> ('k, 'v) entry" where
  "set_value v entry = Entry (Some v) (children entry)"

definition del_value :: "('k, 'v) entry \<Rightarrow> ('k, 'v) entry" where
  "del_value entry = Entry None (children entry)"

text \<open>\<^verbatim>\<open>_set_entry\<close>; \<open>key\<close> is the reference to \<open>entry\<close>.\<close>

definition set_entry :: "'k list \<Rightarrow> ('k, 'v) entry \<Rightarrow> 'v \<Rightarrow> ('k, 'v) trie \<Rightarrow> ('k, 'v) trie" where
  "set_entry key entry v self =
     (let self1 = (if \<not> has_value entry
                   then self\<lparr>trie_length := trie_length self + 1\<rparr> else self)
      in self1\<lparr>root := modify_entry (set_value v) key (root self1)\<rparr>)"

subsection \<open>The mapping methods\<close>

text \<open>\<^verbatim>\<open>__getitem__\<close>, \<^verbatim>\<open>__setitem__\<close>, \<^verbatim>\<open>__delitem__\<close> and \<^verbatim>\<open>__len__\<close>\<close>

definition getitem :: "'k list \<Rightarrow> ('k, 'v) trie \<Rightarrow> ('k error + 'v) \<times> ('k, 'v) trie" where
  "getitem key self =
     (case trie_find key False self of
        (Inl e, self') \<Rightarrow> (Inl e, self')
      | (Inr entry, self') \<Rightarrow>
          if has_value entry
          then (attr_value entry, self')
          else (Inl (KeyError key), self'))"

definition setitem :: "'k list \<Rightarrow> 'v \<Rightarrow> ('k, 'v) trie \<Rightarrow> ('k error + unit) \<times> ('k, 'v) trie" where
  "setitem key v self =
     (case trie_find key True self of
        (Inl e, self') \<Rightarrow> (Inl e, self')
      | (Inr entry, self') \<Rightarrow> (Inr (), set_entry key entry v self'))"

definition delitem :: "'k list \<Rightarrow> ('k, 'v) trie \<Rightarrow> ('k error + unit) \<times> ('k, 'v) trie" where
  "delitem key self =
     (case trie_find key False self of
        (Inl e, self') \<Rightarrow> (Inl e, self')
      | (Inr entry, self') \<Rightarrow>
          if has_value entry
          then (Inr (), self'\<lparr>root := modify_entry del_value key (root self'),
                              trie_length := trie_length self' - 1\<rparr>)
          else (Inl (KeyError key), self'))"

definition len :: "('k, 'v) trie \<Rightarrow> int" where
  "len self = trie_length self"

text \<open>
  \<^verbatim>\<open>__contains__\<close> is inherited from \<^verbatim>\<open>collections.abc.Mapping\<close>: it calls
  \<^verbatim>\<open>self[key]\<close> and answers \<^verbatim>\<open>False\<close> on \<^verbatim>\<open>KeyError\<close>, \<^verbatim>\<open>True\<close> when no exception
  is raised.
\<close>

definition contains :: "'k list \<Rightarrow> ('k, 'v) trie \<Rightarrow> ('k error + bool) \<times> ('k, 'v) trie" where
  "contains key self =
     (case getitem key self of
        (Inl (KeyError k), self') \<Rightarrow> (Inr False, self')
      | (Inl e, self') \<Rightarrow> (Inl e, self')
      | (Inr v, self') \<Rightarrow> (Inr True, self'))"

text \<open>
  \<^verbatim>\<open>transform\<close>. The caller's \<^verbatim>\<open>value_selector\<close> returns a value or raises;
  \<open>dflt\<close> is the parameter \<^verbatim>\<open>default\<close>.
\<close>

definition transform ::
  "'k list \<Rightarrow> ('v \<Rightarrow> 'k error + 'v) \<Rightarrow> 'v \<Rightarrow> ('k, 'v) trie \<Rightarrow> ('k error + unit) \<times> ('k, 'v) trie" where
  "transform key value_selector dflt self =
     (case trie_find key True self of
        (Inl e, self') \<Rightarrow> (Inl e, self')
      | (Inr entry, self') \<Rightarrow>
          (case (if has_value entry then attr_value entry else Inr dflt) of
             Inl e \<Rightarrow> (Inl e, self')
           | Inr old \<Rightarrow>
               (case value_selector old of
                  Inl e \<Rightarrow> (Inl e, self')
                | Inr v \<Rightarrow> (Inr (), set_entry key entry v self'))))"

text \<open>
  The constructor: an empty root, length 0, then \<^verbatim>\<open>update\<close> (inherited from
  \<^verbatim>\<open>MutableMapping\<close>), which assigns the pairs one after the other.
\<close>

definition empty_trie :: "('k, 'v) trie" where
  "empty_trie = \<lparr>root = Entry None [], trie_length = 0\<rparr>"

fun update :: "('k list \<times> 'v) list \<Rightarrow> ('k, 'v) trie \<Rightarrow> ('k error + unit) \<times> ('k, 'v) trie" where
  "update [] self = (Inr (), self)"
| "update ((key, v) # kvs) self =
     (case setitem key v self of
        (Inl e, self') \<Rightarrow> (Inl e, self')
      | (Inr u, self') \<Rightarrow> update kvs self')"

definition init :: "('k list \<times> 'v) list \<Rightarrow> 'k error + ('k, 'v) trie" where
  "init kvs = (case update kvs empty_trie of
                 (Inl e, self) \<Rightarrow> Inl e
               | (Inr u, self) \<Rightarrow> Inr self)"

subsection \<open>Enumeration\<close>

text \<open>
  The \<^verbatim>\<open>while stack:\<close> loop of \<^verbatim>\<open>items\<close>, for keys of type \<^verbatim>\<open>str\<close>
  (\<^verbatim>\<open>current_prefix + char\<close> is string concatenation). The Python list that serves as
  the stack is a list whose head is the top: \<^verbatim>\<open>stack.pop()\<close> takes the head,
  \<^verbatim>\<open>stack.append(x)\<close> conses. The \<^verbatim>\<open>for\<close> loop over \<^verbatim>\<open>entry.items()\<close> is the
  \<open>foldl\<close> over the children in dict order. The result is the list of the pairs the
  generator yields, in the order in which it yields them.
\<close>

function walk :: "(string \<times> (char, 'v) entry) list \<Rightarrow> (string \<times> 'v) list" where
  "walk [] = []"
| "walk ((current_prefix, entry) # stack) =
     (case val entry of Some v \<Rightarrow> [(current_prefix, v)] | None \<Rightarrow> [])
     @ walk (foldl (\<lambda>stack (char, child). (current_prefix @ [char], child) # stack)
               stack (children entry))"
  by pat_completeness auto
termination
proof (relation "measure (\<lambda>stack. sum_list (map (\<lambda>(p, e). size e) stack))")
  show "wf (measure (\<lambda>stack. sum_list (map (\<lambda>(p, e :: (char, 'v) entry). size e) stack)))"
    by simp
next
  fix current_prefix :: string and entry :: "(char, 'v) entry" and stack
  have push: "sum_list (map (\<lambda>(p, e). size e)
                 (foldl (\<lambda>stack (char, child). (current_prefix @ [char], child) # stack) st cs))
              = sum_list (map (\<lambda>(p, e). size e) st) + sum_list (map (\<lambda>(c, e). size e) cs)"
    for st and cs :: "(char \<times> (char, 'v) entry) list"
    by (induction cs arbitrary: st) (auto simp: case_prod_beta)
  have below: "sum_list (map (\<lambda>(c, e). size e) cs) \<le> size_list (size_prod (\<lambda>x. 0) size) cs"
    for cs :: "(char \<times> (char, 'v) entry) list"
    by (induction cs) (auto simp: case_prod_beta)
  have "sum_list (map (\<lambda>(c, e). size e) (children entry)) < size entry"
    using below [of "children entry"] by (cases entry) simp
  then show "(foldl (\<lambda>stack (char, child). (current_prefix @ [char], child) # stack)
                stack (children entry), (current_prefix, entry) # stack)
             \<in> measure (\<lambda>stack. sum_list (map (\<lambda>(p, e). size e) stack))"
    by (simp add: push)
qed

text \<open>
  PEP 479, in force in every Python from 3.7 on: a \<^verbatim>\<open>StopIteration\<close> that the body of a
  generator raises does not end the iteration; the interpreter replaces it by
  \<^verbatim>\<open>RuntimeError\<close>. Every other exception leaves the generator as it is.
\<close>

definition generator_raise :: "'k error \<Rightarrow> 'k error" where
  "generator_raise e = (case e of StopIteration \<Rightarrow> RuntimeError | _ \<Rightarrow> e)"

text \<open>
  The body of the generator function \<^verbatim>\<open>items\<close> as it is written: what it raises, or the
  pairs it yields until it returns.
\<close>

definition items_body ::
  "string \<Rightarrow> (char, 'v) trie \<Rightarrow> (char error + (string \<times> 'v) list) \<times> (char, 'v) trie" where
  "items_body prefix self =
     (case trie_find prefix False self of
        (Inl (KeyError k), self') \<Rightarrow> (Inl StopIteration, self')
      | (Inl e, self') \<Rightarrow> (Inl e, self')
      | (Inr start, self') \<Rightarrow> (Inr (walk [(prefix, start)]), self'))"

text \<open>
  \<^verbatim>\<open>items(prefix)\<close>, consumed to its end: the exception that reaches the consumer, or
  the sequence of pairs.
\<close>

definition items ::
  "string \<Rightarrow> (char, 'v) trie \<Rightarrow> (char error + (string \<times> 'v) list) \<times> (char, 'v) trie" where
  "items prefix self =
     (case items_body prefix self of
        (Inl e, self') \<Rightarrow> (Inl (generator_raise e), self')
      | (Inr kvs, self') \<Rightarrow> (Inr kvs, self'))"

text \<open>
  \<^verbatim>\<open>keys(prefix)\<close>, consumed to its end: the generator expression
  \<^verbatim>\<open>(key for key, value in self.items(prefix))\<close>.
\<close>

definition keys ::
  "string \<Rightarrow> (char, 'v) trie \<Rightarrow> (char error + string list) \<times> (char, 'v) trie" where
  "keys prefix self =
     (case items prefix self of
        (Inl e, self') \<Rightarrow> (Inl (generator_raise e), self')
      | (Inr kvs, self') \<Rightarrow> (Inr (map fst kvs), self'))"

subsection \<open>Notions of the specification\<close>

text \<open>
  The node at the end of the path that \<open>key\<close> spells from \<open>entry\<close>, if every symbol of
  the key has its child edge.
\<close>

fun entry_at :: "('k, 'v) entry \<Rightarrow> 'k list \<Rightarrow> ('k, 'v) entry option" where
  "entry_at entry [] = Some entry"
| "entry_at entry (char # key) =
     (case map_of (children entry) char of
        None \<Rightarrow> None
      | Some child \<Rightarrow> entry_at child key)"

text \<open>The mapping a tree stands for: the value slot at the end of the key's path.\<close>

definition lookup :: "('k, 'v) entry \<Rightarrow> 'k list \<Rightarrow> 'v option" where
  "lookup entry key = (case entry_at entry key of None \<Rightarrow> None | Some e \<Rightarrow> val e)"

text \<open>The number of nodes of a tree whose value slot is set.\<close>

fun count_values :: "('k, 'v) entry \<Rightarrow> nat" where
  "count_values (Entry v cs) =
     (if v = None then 0 else 1) + sum_list (map (\<lambda>p. count_values (snd p)) cs)"

text \<open>A Python dict holds each key once: no node has two edges with the same symbol.\<close>

fun wf_entry :: "('k, 'v) entry \<Rightarrow> bool" where
  "wf_entry (Entry v cs) = (distinct (map fst cs) \<and> list_all (\<lambda>p. wf_entry (snd p)) cs)"

text \<open>
  The invariant of class \<^verbatim>\<open>Trie\<close>: the tree is made of dicts, and \<^verbatim>\<open>_length\<close> is the
  number of nodes with a value.
\<close>

definition invar :: "('k, 'v) trie \<Rightarrow> bool" where
  "invar self = (wf_entry (root self) \<and> trie_length self = int (count_values (root self)))"

text \<open>
  The enumeration order in the specification's words: a node's own pair first, then the
  subtrees of its children, the child pushed last first, each subtree in full before the
  next.
\<close>

fun preorder_lifo :: "'k list \<Rightarrow> ('k, 'v) entry \<Rightarrow> ('k list \<times> 'v) list" where
  "preorder_lifo p (Entry v cs) =
     (case v of Some x \<Rightarrow> [(p, x)] | None \<Rightarrow> [])
     @ concat (map (\<lambda>c. preorder_lifo (p @ [fst c]) (snd c)) (rev cs))"

text \<open>
  The running example, \<^verbatim>\<open>Trie(she=1, sells=5, sea=10, shells=19, today=5)\<close>: the trie
  that the constructor's \<^verbatim>\<open>update\<close> leaves behind.
\<close>

definition example_trie :: "(char, int) trie" where
  "example_trie =
     snd (update [(''she'', 1), (''sells'', 5), (''sea'', 10), (''shells'', 19), (''today'', 5)]
            empty_trie)"

text \<open>
  Python values whose truth value is false, among them the language's own "no value":
  \<^verbatim>\<open>None\<close>, integers such as \<^verbatim>\<open>0\<close>, strings such as \<^verbatim>\<open>""\<close>.
\<close>

datatype pyval = PyNone | PyInt int | PyStr string

text \<open>
  Two tries with the same mapping: \<^verbatim>\<open>Trie(she=1)\<close>, and \<^verbatim>\<open>Trie(she=1, shells=19)\<close>
  after \<^verbatim>\<open>del trie['shells']\<close>.
\<close>

definition she_trie :: "(char, int) trie" where
  "she_trie = snd (update [(''she'', 1)] empty_trie)"

definition she_shells_deleted :: "(char, int) trie" where
  "she_shells_deleted =
     snd (delitem ''shells'' (snd (update [(''she'', 1), (''shells'', 19)] empty_trie)))"

section \<open>Lemmas\<close>

subsection \<open>Dicts and the traversal\<close>

lemma map_of_dict_set:
  "map_of (dict_set c x cs) c' = (if c' = c then Some x else map_of cs c')"
  by (induction cs) auto

lemma dict_set_same: "map_of cs c = Some x \<Longrightarrow> dict_set c x cs = cs"
  by (induction cs) (auto split: if_splits)

lemma map_fst_dict_set:
  "map fst (dict_set c x cs) = (if c \<in> set (map fst cs) then map fst cs else map fst cs @ [c])"
  by (induction cs) (auto split: if_splits)

lemma set_dict_set_subset: "set (dict_set c x cs) \<subseteq> insert (c, x) (set cs)"
  by (induction cs) (auto split: if_splits)

lemma lookup_Nil: "lookup e [] = val e"
  by (simp add: lookup_def)

lemma lookup_Cons:
  "lookup e (c # k) = (case map_of (children e) c of None \<Rightarrow> None | Some ch \<Rightarrow> lookup ch k)"
  by (simp add: lookup_def split: option.splits)

lemma lookup_leaf: "lookup (Entry None []) k = None"
  by (cases k) (simp_all add: lookup_Nil lookup_Cons)

lemma entry_at_append:
  "entry_at e (p @ k) = (case entry_at e p of None \<Rightarrow> None | Some d \<Rightarrow> entry_at d k)"
  by (induction p arbitrary: e) (auto split: option.splits)

lemma find_loop_False:
  "find_loop False e k = (case entry_at e k of None \<Rightarrow> None | Some d \<Rightarrow> Some (e, d))"
proof (induction k arbitrary: e)
  case Nil
  show ?case by simp
next
  case (Cons c k)
  show ?case
  proof (cases "map_of (children e) c")
    case None
    then show ?thesis by simp
  next
    case (Some ch)
    then show ?thesis
      by (cases e) (simp add: Cons.IH dict_set_same split: option.splits)
  qed
qed

lemma find_loop_True_ex:
  fixes e :: "('k, 'v) entry"
  shows "\<exists>r d. find_loop True e k = Some (r, d)"
proof (induction k arbitrary: e)
  case Nil
  show ?case by simp
next
  case (Cons c k)
  show ?case
  proof (cases "map_of (children e) c")
    case None
    from Cons.IH [of "Entry None []"] obtain n d
      where "find_loop True (Entry None [] :: ('k, 'v) entry) k = Some (n, d)" by blast
    with None show ?thesis by simp
  next
    case (Some ch)
    from Cons.IH [of ch] obtain n d where "find_loop True ch k = Some (n, d)" by blast
    with Some show ?thesis by simp
  qed
qed

lemma find_loop_True_dest:
  "find_loop True e k = Some (r, d) \<Longrightarrow> entry_at r k = Some d \<and> val d = lookup e k"
proof (induction k arbitrary: e r d)
  case Nil
  then show ?case by (auto simp: lookup_Nil)
next
  case (Cons c k)
  then show ?case
    by (auto simp: lookup_Cons map_of_dict_set lookup_leaf split: option.splits if_splits)
qed

lemma find_loop_True_lookup:
  "find_loop True e k = Some (r, d) \<Longrightarrow> lookup r p = lookup e p"
proof (induction k arbitrary: e r d p)
  case Nil
  then show ?case by simp
next
  case (Cons c k)
  show ?case
  proof (cases p)
    case Nil
    with Cons.prems show ?thesis by (auto simp: lookup_Nil split: option.splits)
  next
    case (Cons c' p')
    with Cons.prems Cons.IH show ?thesis
      by (auto simp: lookup_Cons map_of_dict_set lookup_leaf split: option.splits if_splits)
  qed
qed

lemma sum_dict_set_Some:
  "map_of cs c = Some ch \<Longrightarrow>
   sum_list (map (\<lambda>p. f (snd p)) (dict_set c ch' cs)) + f ch
   = sum_list (map (\<lambda>p. f (snd p)) cs) + (f ch' :: nat)"
  by (induction cs) (auto split: if_splits)

lemma sum_dict_set_None:
  "map_of cs c = None \<Longrightarrow>
   sum_list (map (\<lambda>p. f (snd p)) (dict_set c ch' cs))
   = sum_list (map (\<lambda>p. f (snd p)) cs) + (f ch' :: nat)"
  by (induction cs) (auto split: if_splits)

lemma count_values_eq:
  "count_values e = (if val e = None then 0 else 1)
     + sum_list (map (\<lambda>p. count_values (snd p)) (children e))"
  by (cases e) simp

lemma find_loop_True_count:
  "find_loop True e k = Some (r, d) \<Longrightarrow> count_values r = count_values e"
proof (induction k arbitrary: e r d)
  case Nil
  then show ?case by simp
next
  case (Cons c k)
  show ?case
  proof (cases "map_of (children e) c")
    case None
    with Cons.prems obtain n where n: "find_loop True (Entry None []) k = Some (n, d)"
      and r: "r = Entry (val e) (dict_set c n (children e))"
      by (auto split: option.splits)
    from Cons.IH [OF n] have "count_values n = 0" by simp
    with None r show ?thesis
      by (simp add: count_values_eq [of e] sum_dict_set_None)
  next
    case (Some ch)
    with Cons.prems obtain n where n: "find_loop True ch k = Some (n, d)"
      and r: "r = Entry (val e) (dict_set c n (children e))"
      by (auto split: option.splits)
    from Cons.IH [OF n] have "count_values n = count_values ch" .
    with Some r sum_dict_set_Some [OF Some, of count_values n] show ?thesis
      by (simp add: count_values_eq [of e])
  qed
qed

lemma wf_entry_eq:
  "wf_entry e = (distinct (map fst (children e)) \<and> (\<forall>p \<in> set (children e). wf_entry (snd p)))"
  by (cases e) (simp add: list_all_iff)

lemma wf_dict_set:
  "distinct (map fst cs) \<Longrightarrow> \<forall>p \<in> set cs. wf_entry (snd p) \<Longrightarrow> wf_entry x \<Longrightarrow>
   distinct (map fst (dict_set c x cs)) \<and> (\<forall>p \<in> set (dict_set c x cs). wf_entry (snd p))"
  using set_dict_set_subset [of c x cs] by (auto simp: map_fst_dict_set)

lemma find_loop_True_wf:
  "find_loop True e k = Some (r, d) \<Longrightarrow> wf_entry e \<Longrightarrow> wf_entry r"
proof (induction k arbitrary: e r d)
  case Nil
  then show ?case by simp
next
  case (Cons c k)
  show ?case
  proof (cases "map_of (children e) c")
    case None
    with Cons.prems obtain n where n: "find_loop True (Entry None []) k = Some (n, d)"
      and r: "r = Entry (val e) (dict_set c n (children e))"
      by (auto split: option.splits)
    from Cons.IH [OF n] have "wf_entry n" by simp
    with Cons.prems(2) r show ?thesis
      using wf_dict_set [of "children e" n c] by (simp add: wf_entry_eq [of e] list_all_iff)
  next
    case (Some ch)
    with Cons.prems obtain n where n: "find_loop True ch k = Some (n, d)"
      and r: "r = Entry (val e) (dict_set c n (children e))"
      by (auto split: option.splits)
    from Some have "(c, ch) \<in> set (children e)" by (rule map_of_SomeD)
    with Cons.prems(2) have "wf_entry ch" by (auto simp: wf_entry_eq [of e])
    from Cons.IH [OF n this] have "wf_entry n" .
    with Cons.prems(2) r show ?thesis
      using wf_dict_set [of "children e" n c] by (simp add: wf_entry_eq [of e] list_all_iff)
  qed
qed

subsection \<open>Writing through a reference\<close>

lemma modify_entry_lookup:
  "entry_at r k = Some d \<Longrightarrow> (\<And>e. children (f e) = children e) \<Longrightarrow>
   lookup (modify_entry f k r) p = (if p = k then val (f d) else lookup r p)"
proof (induction k arbitrary: r p)
  case Nil
  then show ?case
    by (cases p) (auto simp: lookup_Nil lookup_Cons)
next
  case (Cons c k)
  from Cons.prems(1) obtain ch where ch: "map_of (children r) c = Some ch"
    and d: "entry_at ch k = Some d"
    by (auto split: option.splits)
  show ?case
  proof (cases p)
    case Nil
    with ch show ?thesis by (simp add: lookup_Nil)
  next
    case (Cons c' p')
    with ch Cons.IH [OF d Cons.prems(2), of p'] show ?thesis
      by (auto simp: lookup_Cons map_of_dict_set)
  qed
qed

lemma modify_entry_at:
  "entry_at r k = Some d \<Longrightarrow> (\<And>e. children (f e) = children e) \<Longrightarrow>
   (entry_at (modify_entry f k r) p = None) = (entry_at r p = None)"
proof (induction k arbitrary: r p)
  case Nil
  then show ?case
    by (cases p) auto
next
  case (Cons c k)
  from Cons.prems(1) obtain ch where ch: "map_of (children r) c = Some ch"
    and d: "entry_at ch k = Some d"
    by (auto split: option.splits)
  show ?case
  proof (cases p)
    case Nil
    with ch show ?thesis by simp
  next
    case (Cons c' p')
    with ch Cons.IH [OF d Cons.prems(2), of p'] show ?thesis
      by (auto simp: map_of_dict_set)
  qed
qed

lemma modify_entry_count:
  "entry_at r k = Some d \<Longrightarrow> (\<And>e. children (f e) = children e) \<Longrightarrow>
   count_values (modify_entry f k r) + (if val d = None then 0 else 1)
   = count_values r + (if val (f d) = None then 0 else 1)"
proof (induction k arbitrary: r)
  case Nil
  then show ?case
    by (auto simp: count_values_eq [of d] count_values_eq [of "f d"])
next
  case (Cons c k)
  from Cons.prems(1) obtain ch where ch: "map_of (children r) c = Some ch"
    and d: "entry_at ch k = Some d"
    by (auto split: option.splits)
  from Cons.IH [OF d Cons.prems(2)] ch
    sum_dict_set_Some [OF ch, of count_values "modify_entry f k ch"]
  show ?case
    by (simp add: count_values_eq [of r])
qed

lemma modify_entry_wf:
  "entry_at r k = Some d \<Longrightarrow> (\<And>e. children (f e) = children e) \<Longrightarrow> wf_entry r \<Longrightarrow>
   wf_entry (modify_entry f k r)"
proof (induction k arbitrary: r)
  case Nil
  then show ?case
    by (auto simp: wf_entry_eq [of d] wf_entry_eq [of "f d"])
next
  case (Cons c k)
  from Cons.prems(1) obtain ch where ch: "map_of (children r) c = Some ch"
    and d: "entry_at ch k = Some d"
    by (auto split: option.splits)
  from ch have "(c, ch) \<in> set (children r)" by (rule map_of_SomeD)
  with Cons.prems(3) have "wf_entry ch" by (auto simp: wf_entry_eq [of r])
  from Cons.IH [OF d Cons.prems(2) this] have "wf_entry (modify_entry f k ch)" .
  with Cons.prems(3) ch show ?case
    using wf_dict_set [of "children r" "modify_entry f k ch" c]
    by (simp add: wf_entry_eq [of r] list_all_iff)
qed

subsection \<open>What the methods do to the mapping\<close>

lemma trie_find_False:
  "trie_find key False self =
     (case entry_at (root self) key of
        None \<Rightarrow> (Inl (KeyError key), self)
      | Some d \<Rightarrow> (Inr d, self))"
  by (simp add: trie_find_def find_loop_False split: option.splits)

lemma getitem_lookup:
  "getitem key self =
     (case lookup (root self) key of None \<Rightarrow> Inl (KeyError key) | Some v \<Rightarrow> Inr v, self)"
  by (simp add: getitem_def trie_find_False lookup_def has_value_def attr_value_def
        split: option.splits)

lemma contains_lookup:
  "contains key self = (Inr (lookup (root self) key \<noteq> None), self)"
  by (simp add: contains_def getitem_lookup split: option.splits)

lemma set_entry_sem:
  fixes self :: "('k, 'v) trie"
  assumes "find_loop True (root self) key = Some (r, d)"
  shows "lookup (root (set_entry key d v (self\<lparr>root := r\<rparr>))) p
           = (if p = key then Some v else lookup (root self) p)"
    and "trie_length (set_entry key d v (self\<lparr>root := r\<rparr>))
           = trie_length self + (if lookup (root self) key = None then 1 else 0)"
    and "count_values (root (set_entry key d v (self\<lparr>root := r\<rparr>)))
           = count_values (root self) + (if lookup (root self) key = None then 1 else 0)"
    and "wf_entry (root self) \<Longrightarrow> wf_entry (root (set_entry key d v (self\<lparr>root := r\<rparr>)))"
    and "(entry_at (root (set_entry key d v (self\<lparr>root := r\<rparr>))) p = None)
           = (entry_at r p = None)"
proof -
  from find_loop_True_dest [OF assms] have d: "entry_at r key = Some d"
    and vd: "val d = lookup (root self) key" by simp_all
  have ch: "children (set_value v e) = children e" for e :: "('k, 'v) entry"
    by (simp add: set_value_def)
  have vs: "val (set_value v d) = Some v"
    by (simp add: set_value_def)
  show "lookup (root (set_entry key d v (self\<lparr>root := r\<rparr>))) p
           = (if p = key then Some v else lookup (root self) p)"
    using modify_entry_lookup [OF d ch, of p] find_loop_True_lookup [OF assms, of p] vs
    by (auto simp: set_entry_def Let_def)
  show "trie_length (set_entry key d v (self\<lparr>root := r\<rparr>))
           = trie_length self + (if lookup (root self) key = None then 1 else 0)"
    using vd by (simp add: set_entry_def Let_def has_value_def)
  show "count_values (root (set_entry key d v (self\<lparr>root := r\<rparr>)))
           = count_values (root self) + (if lookup (root self) key = None then 1 else 0)"
    using modify_entry_count [OF d ch] find_loop_True_count [OF assms] vd vs
    by (simp add: set_entry_def Let_def split: if_splits)
  show "wf_entry (root (set_entry key d v (self\<lparr>root := r\<rparr>)))" if "wf_entry (root self)"
    using modify_entry_wf [OF d ch find_loop_True_wf [OF assms that]]
    by (simp add: set_entry_def Let_def)
  show "(entry_at (root (set_entry key d v (self\<lparr>root := r\<rparr>))) p = None)
           = (entry_at r p = None)"
    using modify_entry_at [OF d ch, of p]
    by (simp add: set_entry_def Let_def)
qed

lemma setitem_sem:
  "\<exists>self'. setitem key v self = (Inr (), self')
     \<and> (\<forall>p. lookup (root self') p = (if p = key then Some v else lookup (root self) p))
     \<and> trie_length self' = trie_length self + (if lookup (root self) key = None then 1 else 0)
     \<and> count_values (root self')
         = count_values (root self) + (if lookup (root self) key = None then 1 else 0)
     \<and> (wf_entry (root self) \<longrightarrow> wf_entry (root self'))"
proof -
  obtain r d where rd: "find_loop True (root self) key = Some (r, d)"
    using find_loop_True_ex by blast
  then have "setitem key v self = (Inr (), set_entry key d v (self\<lparr>root := r\<rparr>))"
    by (simp add: setitem_def trie_find_def)
  with set_entry_sem [OF rd, of v] show ?thesis
    by simp
qed

lemma delitem_sem:
  "delitem key self =
     (case lookup (root self) key of
        None \<Rightarrow> (Inl (KeyError key), self)
      | Some v \<Rightarrow> (Inr (), self\<lparr>root := modify_entry del_value key (root self),
                               trie_length := trie_length self - 1\<rparr>))"
  by (simp add: delitem_def trie_find_False lookup_def has_value_def split: option.splits)

lemma delitem_ok:
  fixes self :: "('k, 'v) trie"
  assumes "lookup (root self) key = Some v"
  shows "\<exists>self'. delitem key self = (Inr (), self')
     \<and> (\<forall>p. lookup (root self') p = (if p = key then None else lookup (root self) p))
     \<and> trie_length self' = trie_length self - 1
     \<and> count_values (root self') + 1 = count_values (root self)
     \<and> (wf_entry (root self) \<longrightarrow> wf_entry (root self'))
     \<and> (\<forall>p. (entry_at (root self') p = None) = (entry_at (root self) p = None))"
proof -
  from assms obtain d where d: "entry_at (root self) key = Some d" and vd: "val d = Some v"
    by (auto simp: lookup_def split: option.splits)
  have ch: "children (del_value e) = children e" for e :: "('k, 'v) entry"
    by (simp add: del_value_def)
  have vs: "val (del_value d) = None"
    by (simp add: del_value_def)
  have 1: "lookup (modify_entry del_value key (root self)) p
             = (if p = key then None else lookup (root self) p)" for p
    using modify_entry_lookup [OF d ch, of p] vs by simp
  have 2: "count_values (modify_entry del_value key (root self)) + 1 = count_values (root self)"
    using modify_entry_count [OF d ch] vd vs by simp
  have 3: "wf_entry (root self) \<Longrightarrow> wf_entry (modify_entry del_value key (root self))"
    using modify_entry_wf [OF d ch] .
  have 4: "(entry_at (modify_entry del_value key (root self)) p = None)
             = (entry_at (root self) p = None)" for p
    using modify_entry_at [OF d ch, of p] .
  show ?thesis
    using assms 1 2 3 4 by (simp add: delitem_sem)
qed

subsection \<open>The enumeration\<close>

lemma preorder_lifo_eq:
  "preorder_lifo p e =
     (case val e of Some x \<Rightarrow> [(p, x)] | None \<Rightarrow> [])
     @ concat (map (\<lambda>c. preorder_lifo (p @ [fst c]) (snd c)) (rev (children e)))"
  by (cases e) simp

lemma length_preorder_lifo: "length (preorder_lifo p e) = count_values e"
proof (induction p e rule: preorder_lifo.induct)
  case (1 p v cs)
  have "map (\<lambda>c. length (preorder_lifo (p @ [fst c]) (snd c))) cs
        = map (\<lambda>c. count_values (snd c)) cs"
    using 1 by (intro map_cong) simp_all
  then have "sum_list (map (\<lambda>c. length (preorder_lifo (p @ [fst c]) (snd c))) cs)
        = sum_list (map (\<lambda>c. count_values (snd c)) cs)"
    by (rule arg_cong)
  then show ?case
    by (simp add: length_concat comp_def rev_map [symmetric] split: option.splits)
qed

lemma lookup_Cons_Some:
  "(lookup e (c # k) = Some x)
   = (\<exists>ch. map_of (children e) c = Some ch \<and> lookup ch k = Some x)"
  by (simp add: lookup_Cons split: option.splits)

lemma in_preorder_lifo:
  "wf_entry e \<Longrightarrow>
   ((q, x) \<in> set (preorder_lifo p e)) = (\<exists>k. q = p @ k \<and> lookup e k = Some x)"
proof (induction p e arbitrary: q x rule: preorder_lifo.induct)
  case (1 p v cs)
  from "1.prems" have dist: "distinct (map fst cs)"
    and wfc: "\<And>c. c \<in> set cs \<Longrightarrow> wf_entry (snd c)"
    by (simp_all add: list_all_iff)
  have IH: "((q, x) \<in> set (preorder_lifo (p @ [fst c]) (snd c)))
            = (\<exists>k. q = p @ fst c # k \<and> lookup (snd c) k = Some x)" if "c \<in> set cs" for c
    using "1.IH" [of c q x] wfc [OF that] that by simp
  have own: "((q, x) \<in> set (case v of Some y \<Rightarrow> [(p, y)] | None \<Rightarrow> []))
             = (q = p \<and> v = Some x)"
    by (auto split: option.splits)
  have sub: "(\<exists>c \<in> set cs. \<exists>k. q = p @ fst c # k \<and> lookup (snd c) k = Some x)
             = (\<exists>c k. q = p @ c # k \<and> lookup (Entry v cs) (c # k) = Some x)"
    using dist by (force simp: lookup_Cons_Some)
  have "((q, x) \<in> set (preorder_lifo p (Entry v cs)))
        = ((q = p \<and> v = Some x)
           \<or> (\<exists>c \<in> set cs. \<exists>k. q = p @ fst c # k \<and> lookup (snd c) k = Some x))"
    using own IH by auto
  also have "\<dots> = ((q = p \<and> lookup (Entry v cs) [] = Some x)
           \<or> (\<exists>c k. q = p @ c # k \<and> lookup (Entry v cs) (c # k) = Some x))"
    by (simp only: sub lookup_Nil entry.sel)
  also have "\<dots> = (\<exists>k. q = p @ k \<and> lookup (Entry v cs) k = Some x)"
  proof
    assume "(q = p \<and> lookup (Entry v cs) [] = Some x)
           \<or> (\<exists>c k. q = p @ c # k \<and> lookup (Entry v cs) (c # k) = Some x)"
    then show "\<exists>k. q = p @ k \<and> lookup (Entry v cs) k = Some x"
      by (metis append_Nil2)
  next
    assume "\<exists>k. q = p @ k \<and> lookup (Entry v cs) k = Some x"
    then obtain k where k: "q = p @ k" "lookup (Entry v cs) k = Some x" by blast
    then show "(q = p \<and> lookup (Entry v cs) [] = Some x)
           \<or> (\<exists>c k. q = p @ c # k \<and> lookup (Entry v cs) (c # k) = Some x)"
      by (cases k) auto
  qed
  finally show ?case .
qed

lemma distinct_concat_keys:
  "distinct (map fst cs) \<Longrightarrow>
   (\<And>c. c \<in> set cs \<Longrightarrow> distinct (map fst (g c))) \<Longrightarrow>
   (\<And>c q. c \<in> set cs \<Longrightarrow> q \<in> fst ` set (g c) \<Longrightarrow> \<exists>k. q = p @ fst c # k) \<Longrightarrow>
   distinct (map fst (concat (map g cs)))"
proof (induction cs)
  case Nil
  show ?case by simp
next
  case (Cons c cs)
  have rest: "distinct (map fst (concat (map g cs)))"
    using Cons.prems by (intro Cons.IH) auto
  have here: "distinct (map fst (g c))"
    using Cons.prems(2) by simp
  have disj: "fst ` set (g c) \<inter> fst ` set (concat (map g cs)) = {}"
  proof (rule ccontr)
    assume "fst ` set (g c) \<inter> fst ` set (concat (map g cs)) \<noteq> {}"
    then obtain q c' where q: "q \<in> fst ` set (g c)" and c': "c' \<in> set cs"
      and q': "q \<in> fst ` set (g c')"
      by auto
    from Cons.prems(3) [of c q] q obtain k where "q = p @ fst c # k" by auto
    moreover from Cons.prems(3) [of c' q] c' q' obtain k' where "q = p @ fst c' # k'" by auto
    ultimately have "fst c = fst c'" by simp
    with c' Cons.prems(1) show False by force
  qed
  from rest here disj show ?case by simp
qed

lemma distinct_preorder_lifo:
  "wf_entry e \<Longrightarrow> distinct (map fst (preorder_lifo p e))"
proof (induction p e rule: preorder_lifo.induct)
  case (1 p v cs)
  from "1.prems" have dist: "distinct (map fst cs)"
    and wfc: "\<And>c. c \<in> set cs \<Longrightarrow> wf_entry (snd c)"
    by (simp_all add: list_all_iff)
  have d1: "distinct (map fst (preorder_lifo (p @ [fst c]) (snd c)))" if "c \<in> set (rev cs)" for c
    using "1.IH" [of c] wfc that by simp
  have d2: "\<exists>k. q = p @ fst c # k"
    if "c \<in> set (rev cs)" "q \<in> fst ` set (preorder_lifo (p @ [fst c]) (snd c))" for c q
  proof -
    from that(2) obtain x where "(q, x) \<in> set (preorder_lifo (p @ [fst c]) (snd c))" by auto
    with in_preorder_lifo [of "snd c" q x "p @ [fst c]"] wfc [of c] that(1)
    show ?thesis by auto
  qed
  have kids: "distinct (map fst (concat (map (\<lambda>c. preorder_lifo (p @ [fst c]) (snd c)) (rev cs))))"
    using dist d1 d2
    by (intro distinct_concat_keys [where p = p]) (simp_all add: rev_map [symmetric])
  have notp: "p \<notin> fst ` set (concat (map (\<lambda>c. preorder_lifo (p @ [fst c]) (snd c)) (rev cs)))"
  proof
    assume "p \<in> fst ` set (concat (map (\<lambda>c. preorder_lifo (p @ [fst c]) (snd c)) (rev cs)))"
    then obtain c where "c \<in> set (rev cs)"
      "p \<in> fst ` set (preorder_lifo (p @ [fst c]) (snd c))" by auto
    from d2 [OF this] show False by simp
  qed
  from kids notp show ?case
    by (cases v) simp_all
qed

lemma foldl_push:
  "foldl (\<lambda>stack (char, child). (p @ [char], child) # stack) st cs
   = rev (map (\<lambda>c. (p @ [fst c], snd c)) cs) @ st"
  by (induction cs arbitrary: st) (auto simp: case_prod_beta)

lemma walk_preorder_lifo:
  "walk stack = concat (map (\<lambda>(p, e). preorder_lifo p e) stack)"
proof (induction stack rule: walk.induct)
  case 1
  show ?case by simp
next
  case (2 p e stack)
  have "walk ((p, e) # stack)
        = (case val e of Some v \<Rightarrow> [(p, v)] | None \<Rightarrow> [])
          @ concat (map (\<lambda>(p, e). preorder_lifo p e)
              (rev (map (\<lambda>c. (p @ [fst c], snd c)) (children e)) @ stack))"
    using 2 by (simp add: foldl_push)
  also have "\<dots> = preorder_lifo p e @ concat (map (\<lambda>(p, e). preorder_lifo p e) stack)"
    by (simp add: preorder_lifo_eq [of p e] rev_map comp_def)
  finally show ?case by simp
qed

lemma card_lookup:
  assumes "wf_entry e"
  shows "finite {k. lookup e k \<noteq> None}" and "card {k. lookup e k \<noteq> None} = count_values e"
proof -
  have "set (map fst (preorder_lifo [] e)) = {k. lookup e k \<noteq> None}"
    using in_preorder_lifo [OF assms, of _ _ "[]"] by force
  moreover have "card (set (map fst (preorder_lifo [] e))) = length (map fst (preorder_lifo [] e))"
    using distinct_preorder_lifo [OF assms] by (rule distinct_card)
  ultimately show "card {k. lookup e k \<noteq> None} = count_values e"
    by (simp add: length_preorder_lifo)
  from \<open>set (map fst (preorder_lifo [] e)) = {k. lookup e k \<noteq> None}\<close>
  show "finite {k. lookup e k \<noteq> None}"
    by (metis List.finite_set)
qed

lemma entry_at_wf: "entry_at e k = Some d \<Longrightarrow> wf_entry e \<Longrightarrow> wf_entry d"
proof (induction k arbitrary: e)
  case Nil
  then show ?case by simp
next
  case (Cons c k)
  from Cons.prems(1) obtain ch where ch: "map_of (children e) c = Some ch"
    and d: "entry_at ch k = Some d"
    by (auto split: option.splits)
  from ch have "(c, ch) \<in> set (children e)" by (rule map_of_SomeD)
  with Cons.prems(2) have "wf_entry ch" by (auto simp: wf_entry_eq [of e])
  with Cons.IH [OF d] show ?case .
qed

lemma lookup_append:
  "entry_at e p = Some d \<Longrightarrow> lookup e (p @ k) = lookup d k"
  by (simp add: lookup_def entry_at_append)

lemma items_sem:
  "items prefix self =
     (case entry_at (root self) prefix of
        None \<Rightarrow> (Inl RuntimeError, self)
      | Some start \<Rightarrow> (Inr (preorder_lifo prefix start), self))"
  by (simp add: items_def items_body_def trie_find_False generator_raise_def
        walk_preorder_lifo split: option.splits)

lemma items_body_unmatched:
  "entry_at (root self) prefix = None \<Longrightarrow> items_body prefix self = (Inl StopIteration, self)"
  by (simp add: items_body_def trie_find_False)

lemma keys_sem:
  "keys prefix self =
     (case entry_at (root self) prefix of
        None \<Rightarrow> (Inl RuntimeError, self)
      | Some start \<Rightarrow> (Inr (map fst (preorder_lifo prefix start)), self))"
  by (simp add: keys_def items_sem generator_raise_def split: option.splits)

subsection \<open>The invariant\<close>

lemma entry_at_prefix:
  "entry_at e (p @ k) = Some d \<Longrightarrow> \<exists>d'. entry_at e p = Some d'"
  by (simp add: entry_at_append split: option.splits)

lemma setitem_path:
  fixes self :: "('k, 'v) trie"
  shows "\<exists>self' d. setitem key v self = (Inr (), self') \<and> entry_at (root self') key = Some d"
proof -
  obtain r d where rd: "find_loop True (root self) key = Some (r, d)"
    using find_loop_True_ex by blast
  then have s: "setitem key v self = (Inr (), set_entry key d v (self\<lparr>root := r\<rparr>))"
    by (simp add: setitem_def trie_find_def)
  from find_loop_True_dest [OF rd] have "entry_at r key \<noteq> None" by simp
  with set_entry_sem(5) [OF rd, of v key]
  have "entry_at (root (set_entry key d v (self\<lparr>root := r\<rparr>))) key \<noteq> None" by simp
  with s show ?thesis by auto
qed

lemma getitem_or_default:
  "(case fst (getitem key self) of Inl e \<Rightarrow> dflt | Inr old \<Rightarrow> old)
   = (case lookup (root self) key of None \<Rightarrow> dflt | Some old \<Rightarrow> old)"
  by (simp add: getitem_lookup split: option.splits)

lemma transform_sem:
  fixes self :: "('k, 'v) trie"
  shows "\<exists>r d. find_loop True (root self) key = Some (r, d) \<and>
     transform key value_selector dflt self =
       (case value_selector (case lookup (root self) key of None \<Rightarrow> dflt | Some old \<Rightarrow> old) of
          Inl e \<Rightarrow> (Inl e, self\<lparr>root := r\<rparr>)
        | Inr v \<Rightarrow> (Inr (), set_entry key d v (self\<lparr>root := r\<rparr>)))"
proof -
  obtain r d where rd: "find_loop True (root self) key = Some (r, d)"
    using find_loop_True_ex by blast
  from find_loop_True_dest [OF rd] have "val d = lookup (root self) key" by simp
  then have "(if has_value d then attr_value d else Inr dflt)
             = Inr (case lookup (root self) key of None \<Rightarrow> dflt | Some old \<Rightarrow> old)"
    by (simp add: has_value_def attr_value_def split: option.splits)
  with rd show ?thesis
    by (simp add: transform_def trie_find_def split: sum.splits)
qed

lemma invar_setitem: "invar self \<Longrightarrow> invar (snd (setitem key v self))"
  using setitem_sem [of key v self] by (auto simp: invar_def)

lemma invar_delitem: "invar self \<Longrightarrow> invar (snd (delitem key self))"
proof (cases "lookup (root self) key")
  case None
  assume "invar self"
  with None show ?thesis by (simp add: delitem_sem)
next
  case (Some v)
  assume "invar self"
  with delitem_ok [OF Some] show ?thesis
    by (auto simp: invar_def)
qed

lemma invar_transform: 
  fixes self :: "('k, 'v) trie"
  assumes "invar self"
  shows "invar (snd (transform key value_selector dflt self))"
proof -
  from transform_sem [of self key value_selector dflt] obtain r d
    where rd: "find_loop True (root self) key = Some (r, d)"
      and t: "transform key value_selector dflt self =
       (case value_selector (case lookup (root self) key of None \<Rightarrow> dflt | Some old \<Rightarrow> old) of
          Inl e \<Rightarrow> (Inl e, self\<lparr>root := r\<rparr>)
        | Inr v \<Rightarrow> (Inr (), set_entry key d v (self\<lparr>root := r\<rparr>)))"
    by blast
  show ?thesis
  proof (cases "value_selector (case lookup (root self) key of None \<Rightarrow> dflt | Some old \<Rightarrow> old)")
    case (Inl e)
    with t assms find_loop_True_count [OF rd] find_loop_True_wf [OF rd] show ?thesis
      by (simp add: invar_def)
  next
    case (Inr v)
    with t assms set_entry_sem(2,3,4) [OF rd, of v] show ?thesis
      by (simp add: invar_def)
  qed
qed

lemma invar_empty: "invar empty_trie"
  by (simp add: invar_def empty_trie_def)

lemma invar_update: "invar self \<Longrightarrow> invar (snd (update kvs self))"
proof (induction kvs arbitrary: self)
  case Nil
  then show ?case by simp
next
  case (Cons kv kvs)
  obtain key v where kv: "kv = (key, v)" by (cases kv)
  from setitem_sem [of key v self] obtain self' where s: "setitem key v self = (Inr (), self')"
    by blast
  with invar_setitem [OF Cons.prems, of key v] have "invar self'" by simp
  from Cons.IH [OF this] kv s show ?case by simp
qed

lemma invar_init: "init kvs = Inr self \<Longrightarrow> invar self"
  using invar_update [OF invar_empty, of kvs]
  by (auto simp: init_def split: prod.splits sum.splits)

lemma len_card:
  assumes "invar self"
  shows "len self = int (card {key. fst (contains key self) = Inr True})"
  using assms card_lookup(2) [of "root self"]
  by (simp add: invar_def len_def contains_lookup)

lemma init_example:
  "init [(''she'', 1), (''sells'', 5), (''sea'', 10), (''shells'', 19), (''today'', 5)]
   = Inr example_trie"
  by code_simp

lemma invar_example: "invar example_trie"
  using invar_init [OF init_example] .

subsection \<open>Deleting and the enumeration\<close>

lemma preorder_lifo_keys:
  "(q, x) \<in> set (preorder_lifo p e) \<Longrightarrow> \<exists>k. q = p @ k"
proof (induction p e arbitrary: q x rule: preorder_lifo.induct)
  case (1 p v cs)
  from "1.prems" consider "q = p" 
    | c where "c \<in> set cs" "(q, x) \<in> set (preorder_lifo (p @ [fst c]) (snd c))"
    by (auto split: option.splits)
  then show ?case
  proof cases
    case 1
    then show ?thesis by simp
  next
    case (2 c)
    from "1.IH" [of c q x] 2 obtain k where "q = (p @ [fst c]) @ k" by auto
    then show ?thesis by simp
  qed
qed

lemma entry_at_modify:
  "entry_at r k = Some d \<Longrightarrow> (\<And>e. children (f e) = children e) \<Longrightarrow>
   entry_at (modify_entry f k r) q =
     (case entry_at r q of
        None \<Rightarrow> None
      | Some x \<Rightarrow> Some (if \<exists>rest. k = q @ rest
                        then modify_entry f (drop (length q) k) x else x))"
proof (induction k arbitrary: r q)
  case Nil
  show ?case
  proof (cases q)
    case Nil
    then show ?thesis by simp
  next
    case (Cons c' q')
    with Nil.prems(2) [of r] show ?thesis by (simp split: option.splits)
  qed
next
  case (Cons c k)
  from Cons.prems(1) obtain ch where ch: "map_of (children r) c = Some ch"
    and d: "entry_at ch k = Some d"
    by (auto split: option.splits)
  show ?case
  proof (cases q)
    case Nil
    with ch show ?thesis by simp
  next
    case q: (Cons c' q')
    show ?thesis
    proof (cases "c' = c")
      case True
      with q ch Cons.IH [OF d Cons.prems(2), of q'] show ?thesis
        by (simp add: map_of_dict_set split: option.splits)
    next
      case False
      with q ch show ?thesis
        by (auto simp: map_of_dict_set split: option.splits)
    qed
  qed
qed

lemma dict_set_map:
  "map_of cs c = Some ch \<Longrightarrow> distinct (map fst cs) \<Longrightarrow>
   dict_set c x cs = map (\<lambda>p. if fst p = c then (c, x) else p) cs"
proof (induction cs)
  case Nil
  then show ?case by simp
next
  case (Cons a cs)
  show ?case
  proof (cases "fst a = c")
    case True
    with Cons.prems(2) have "c \<notin> fst ` set cs" by simp
    then have "\<forall>p \<in> set cs. fst p \<noteq> c" by blast
    then have "map (\<lambda>p. if fst p = c then (c, x) else p) cs = cs"
      by (induction cs) auto
    with True show ?thesis by (cases a) simp
  next
    case False
    with Cons show ?thesis by (cases a) (auto split: if_splits)
  qed
qed

lemma filter_other_subtree:
  assumes "c' \<noteq> c"
  shows "filter (\<lambda>kv. fst kv \<noteq> p @ c # k) (preorder_lifo (p @ [c']) e) = preorder_lifo (p @ [c']) e"
proof -
  have "fst kv \<noteq> p @ c # k" if "kv \<in> set (preorder_lifo (p @ [c']) e)" for kv
  proof -
    from that preorder_lifo_keys [of "fst kv" "snd kv" "p @ [c']" e]
    obtain k' where "fst kv = (p @ [c']) @ k'" by auto
    with assms show ?thesis by simp
  qed
  then show ?thesis by (simp add: filter_id_conv)
qed

lemma preorder_lifo_del:
  "wf_entry r \<Longrightarrow> entry_at r k = Some d \<Longrightarrow>
   preorder_lifo p (modify_entry del_value k r)
   = filter (\<lambda>kv. fst kv \<noteq> p @ k) (preorder_lifo p r)"
proof (induction k arbitrary: r p)
  case Nil
  have "fst kv \<noteq> p"
    if "kv \<in> set (concat (map (\<lambda>c. preorder_lifo (p @ [fst c]) (snd c)) (rev (children r))))"
    for kv
  proof -
    from that obtain c where "kv \<in> set (preorder_lifo (p @ [fst c]) (snd c))" by auto
    with preorder_lifo_keys [of "fst kv" "snd kv" "p @ [fst c]" "snd c"]
    obtain k' where "fst kv = (p @ [fst c]) @ k'" by auto
    then show ?thesis by simp
  qed
  then have "filter (\<lambda>kv. fst kv \<noteq> p)
               (concat (map (\<lambda>c. preorder_lifo (p @ [fst c]) (snd c)) (rev (children r))))
             = concat (map (\<lambda>c. preorder_lifo (p @ [fst c]) (snd c)) (rev (children r)))"
    by (simp add: filter_id_conv)
  then show ?case
    by (simp add: preorder_lifo_eq [of p r] preorder_lifo_eq [of p "del_value r"] del_value_def
          split: option.splits)
next
  case (Cons c k)
  from Cons.prems(2) obtain ch where ch: "map_of (children r) c = Some ch"
    and d: "entry_at ch k = Some d"
    by (auto split: option.splits)
  from Cons.prems(1) have dist: "distinct (map fst (children r))"
    and wfc: "\<And>x. x \<in> set (children r) \<Longrightarrow> wf_entry (snd x)"
    by (simp_all add: wf_entry_eq [of r])
  from ch have mem: "(c, ch) \<in> set (children r)" by (rule map_of_SomeD)
  let ?P = "\<lambda>kv :: 'a list \<times> 'b. fst kv \<noteq> p @ c # k"
  let ?new = "modify_entry del_value k ch"
  have IH: "preorder_lifo (p @ [c]) ?new = filter ?P (preorder_lifo (p @ [c]) ch)"
    using Cons.IH [OF wfc [OF mem, simplified] d, of "p @ [c]"] by simp
  have each: "preorder_lifo (p @ [fst (if fst x = c then (c, ?new) else x)])
                 (snd (if fst x = c then (c, ?new) else x))
              = filter ?P (preorder_lifo (p @ [fst x]) (snd x))" if "x \<in> set (children r)" for x
  proof (cases "fst x = c")
    case True
    with that dist mem have "x = (c, ch)"
      by (metis eq_key_imp_eq_value prod.collapse)
    with IH show ?thesis by simp
  next
    case False
    with filter_other_subtree [of "fst x" c p k "snd x"] show ?thesis by simp
  qed
  have own: "filter ?P (case val r of Some x \<Rightarrow> [(p, x)] | None \<Rightarrow> [])
             = (case val r of Some x \<Rightarrow> [(p, x)] | None \<Rightarrow> [])"
    by (simp split: option.splits)
  have "preorder_lifo p (modify_entry del_value (c # k) r)
        = (case val r of Some x \<Rightarrow> [(p, x)] | None \<Rightarrow> [])
          @ concat (map (\<lambda>x. preorder_lifo (p @ [fst x]) (snd x))
              (rev (map (\<lambda>x. if fst x = c then (c, ?new) else x) (children r))))"
    using ch dist by (simp add: dict_set_map [OF ch dist])
  also have "map (\<lambda>x. preorder_lifo (p @ [fst x]) (snd x))
              (rev (map (\<lambda>x. if fst x = c then (c, ?new) else x) (children r)))
             = map (\<lambda>x. filter ?P (preorder_lifo (p @ [fst x]) (snd x))) (rev (children r))"
    using each by (simp add: rev_map comp_def)
  also have "(case val r of Some x \<Rightarrow> [(p, x)] | None \<Rightarrow> [])
          @ concat (map (\<lambda>x. filter ?P (preorder_lifo (p @ [fst x]) (snd x))) (rev (children r)))
        = filter ?P (preorder_lifo p r)"
    using own by (simp add: preorder_lifo_eq [of p r] filter_concat comp_def)
  finally show ?case .
qed

lemma items_after_delitem:
  fixes self :: "(char, 'v) trie"
  assumes "wf_entry (root self)" and "delitem k self = (Inr (), self')"
  shows "fst (items prefix self') =
     (case fst (items prefix self) of
        Inl e \<Rightarrow> Inl e
      | Inr kvs \<Rightarrow> Inr (filter (\<lambda>kv. fst kv \<noteq> k) kvs))"
proof -
  from assms(2) obtain v where v: "lookup (root self) k = Some v"
    by (cases "lookup (root self) k") (simp_all add: delitem_sem)
  then obtain d where d: "entry_at (root self) k = Some d"
    by (auto simp: lookup_def split: option.splits)
  from assms(2) v have r': "root self' = modify_entry del_value k (root self)"
    by (auto simp: delitem_sem)
  have ch: "children (del_value e) = children e" for e :: "(char, 'v) entry"
    by (simp add: del_value_def)
  note at = entry_at_modify [OF d ch, of prefix]
  show ?thesis
  proof (cases "entry_at (root self) prefix")
    case None
    with at r' show ?thesis by (simp add: items_sem)
  next
    case (Some start)
    show ?thesis
    proof (cases "\<exists>rest. k = prefix @ rest")
      case True
      then obtain rest where k: "k = prefix @ rest" by blast
      with d Some have "entry_at start rest = Some d"
        by (simp add: entry_at_append)
      from preorder_lifo_del [OF entry_at_wf [OF Some assms(1)] this, of prefix]
      have "preorder_lifo prefix (modify_entry del_value rest start)
            = filter (\<lambda>kv. fst kv \<noteq> k) (preorder_lifo prefix start)"
        by (simp add: k)
      with at Some r' k show ?thesis by (simp add: items_sem)
    next
      case False
      have "fst kv \<noteq> k" if "kv \<in> set (preorder_lifo prefix start)" for kv
        using preorder_lifo_keys [of "fst kv" "snd kv" prefix start] that False by auto
      then have "filter (\<lambda>kv. fst kv \<noteq> k) (preorder_lifo prefix start)
                 = preorder_lifo prefix start"
        by (simp add: filter_id_conv)
      with at Some r' False show ?thesis by (simp add: items_sem)
    qed
  qed
qed

text \<open>
  The frame of a \<^verbatim>\<open>delete(k)\<close> that succeeds on a trie over string keys that satisfies the
  invariant: \<^verbatim>\<open>get(p)\<close> and \<^verbatim>\<open>contains(p)\<close> of every other key \<open>p\<close> are as they were; no
  node is pruned; a node without a value fails \<^verbatim>\<open>get\<close>, is not contained, and is yielded by
  no enumeration that returns; for every prefix the enumeration does after the delete what it
  did before, but for the pair of \<open>k\<close>; and \<^verbatim>\<open>len()\<close>, one less than before, counts the
  mapped keys.
\<close>

lemma delitem_keeps_other_keys:
  fixes self :: "(char, 'v) trie"
  assumes "invar self" and "delitem k self = (Inr (), self')"
  shows "(\<forall>p. p \<noteq> k \<longrightarrow> fst (getitem p self') = fst (getitem p self)
                     \<and> fst (contains p self') = fst (contains p self))
     \<and> (\<forall>p. (entry_at (root self') p = None) = (entry_at (root self) p = None))
     \<and> (\<forall>p e. entry_at (root self') p = Some e \<and> \<not> has_value e \<longrightarrow>
            fst (getitem p self') = Inl (KeyError p)
            \<and> fst (contains p self') = Inr False
            \<and> (\<forall>prefix kvs. fst (items prefix self') = Inr kvs \<longrightarrow> p \<notin> fst ` set kvs))
     \<and> (\<forall>prefix. fst (items prefix self') =
            (case fst (items prefix self) of
               Inl e \<Rightarrow> Inl e
             | Inr kvs \<Rightarrow> Inr (filter (\<lambda>kv. fst kv \<noteq> k) kvs)))
     \<and> len self' = len self - 1
     \<and> len self' = int (card {key. fst (contains key self') = Inr True})"
proof -
  from assms(2) obtain v where v: "lookup (root self) k = Some v"
    by (cases "lookup (root self) k") (simp_all add: delitem_sem)
  from delitem_ok [OF v] assms(2)
  have l: "\<And>p. lookup (root self') p = (if p = k then None else lookup (root self) p)"
    and n: "trie_length self' = trie_length self - 1"
    and a: "\<And>p. (entry_at (root self') p = None) = (entry_at (root self) p = None)"
    by auto
  from invar_delitem [OF assms(1), of k] assms(2) have inv: "invar self'" by simp
  have dead: "fst (getitem p self') = Inl (KeyError p)
            \<and> fst (contains p self') = Inr False
            \<and> (\<forall>prefix kvs. fst (items prefix self') = Inr kvs \<longrightarrow> p \<notin> fst ` set kvs)"
    if e: "entry_at (root self') p = Some e" "\<not> has_value e" for p e
  proof -
    from e have none: "lookup (root self') p = None"
      by (simp add: lookup_def has_value_def)
    have "p \<notin> fst ` set kvs" if i: "fst (items prefix self') = Inr kvs" for prefix kvs
    proof
      assume "p \<in> fst ` set kvs"
      then obtain x where x: "(p, x) \<in> set kvs" by auto
      from i obtain start where st: "entry_at (root self') prefix = Some start"
        and kvs: "kvs = preorder_lifo prefix start"
        by (auto simp: items_sem split: option.splits)
      from inv st have "wf_entry start"
        by (auto simp: invar_def intro: entry_at_wf)
      from in_preorder_lifo [OF this, of p x prefix] x kvs
      obtain rest where "p = prefix @ rest" "lookup start rest = Some x" by auto
      with lookup_append [OF st, of rest] none show False by simp
    qed
    with none show ?thesis by (simp add: getitem_lookup contains_lookup)
  qed
  from assms(1) have "wf_entry (root self)"
    by (simp add: invar_def)
  note enum = items_after_delitem [OF this assms(2)]
  from l a dead n len_card [OF inv] enum show ?thesis
    by (simp add: getitem_lookup contains_lookup len_def)
qed

lemma delitem_keeps_other_keys_example:
  "invar example_trie
   \<and> delitem ''shells'' example_trie = (Inr (), snd (delitem ''shells'' example_trie))
   \<and> fst (contains ''she'' (snd (delitem ''shells'' example_trie))) = Inr True
   \<and> fst (getitem ''she'' (snd (delitem ''shells'' example_trie))) = Inr 1
   \<and> entry_at (root (snd (delitem ''shells'' example_trie))) ''shells'' = Some (Entry None [])
   \<and> fst (contains ''shells'' (snd (delitem ''shells'' example_trie))) = Inr False
   \<and> fst (items [] (snd (delitem ''shells'' example_trie)))
       = Inr [(''today'', 5), (''sea'', 10), (''sells'', 5), (''she'', 1)]
   \<and> ''shells'' \<notin> fst ` set [(''today'', 5 :: int), (''sea'', 10), (''sells'', 5), (''she'', 1)]
   \<and> len (snd (delitem ''shells'' example_trie)) = 4"
proof -
  have 1: "invar example_trie"
    by code_simp
  have 2: "delitem ''shells'' example_trie = (Inr (), snd (delitem ''shells'' example_trie))"
    by code_simp
  have 3: "fst (contains ''she'' example_trie) = Inr True"
    by code_simp
  have 4: "fst (getitem ''she'' example_trie) = Inr 1"
    by code_simp
  have 5: "entry_at (root (snd (delitem ''shells'' example_trie))) ''shells'' = Some (Entry None [])"
    by code_simp
  have 6: "\<not> has_value (Entry None [] :: (char, int) entry)"
    by code_simp
  have 7: "fst (items [] (snd (delitem ''shells'' example_trie)))
       = Inr [(''today'', 5), (''sea'', 10), (''sells'', 5), (''she'', 1)]"
    by code_simp
  have 8: "len example_trie = 5"
    by code_simp
  have 9: "''she'' \<noteq> ''shells''"
    by simp
  from delitem_keeps_other_keys [OF 1 2] 1 2 3 4 5 6 7 8 9 show ?thesis
    by (simp del: entry_at.simps)
qed

section \<open>The claims\<close>

text \<open>
  C1. The specification: for a prefix that is not a path of the tree, \<^verbatim>\<open>items(prefix)\<close> and
  \<^verbatim>\<open>keys(prefix)\<close> produce the empty sequence and raise nothing. The code: on the example
  trie and the prefix \<^verbatim>\<open>"xyz"\<close>, the body of \<^verbatim>\<open>items\<close> turns the \<^verbatim>\<open>KeyError\<close> of
  \<^verbatim>\<open>_find\<close> into \<^verbatim>\<open>raise StopIteration\<close>; inside a generator that statement reaches the
  consumer as \<^verbatim>\<open>RuntimeError\<close>, for \<^verbatim>\<open>items\<close> and for \<^verbatim>\<open>keys\<close>.
\<close>

theorem items_unmatched_prefix:
  "fst (items_body ''xyz'' example_trie) = Inl StopIteration
   \<and> fst (items ''xyz'' example_trie) = Inl RuntimeError
   \<and> fst (keys ''xyz'' example_trie) = Inl RuntimeError"
  by code_simp

text \<open>
  C2. For every trie, key \<open>k\<close> (the empty key, whose value lives in the root, included) and
  value \<open>v\<close>: \<^verbatim>\<open>set(k, v)\<close> returns without raising, and in the trie it leaves
  \<^verbatim>\<open>get(k)\<close> returns \<open>v\<close> and \<^verbatim>\<open>contains(k)\<close> is true.
\<close>

theorem setitem_then_getitem:
  "\<exists>self'. setitem k v self = (Inr (), self')
     \<and> fst (getitem k self') = Inr v
     \<and> fst (contains k self') = Inr True"
  using setitem_sem [of k v self]
  by (auto simp: getitem_lookup contains_lookup)

theorem setitem_then_getitem_witness:
  "\<exists>self'. setitem [] (7 :: int) (example_trie) = (Inr (), self')
     \<and> fst (getitem [] self') = Inr 7
     \<and> fst (contains [] self') = Inr True"
  using setitem_then_getitem [of "[]" 7 example_trie] .

text \<open>
  C3. \<^verbatim>\<open>get(k)\<close> returns the value in the slot of the node at the end of the path of
  \<open>k\<close> when that path exists and the slot is set; it fails with \<^verbatim>\<open>KeyError(k)\<close> when the
  path does not exist and when the node is there without a value (an internal node); and the
  trie it leaves, tree and length, is the trie it was given.
\<close>

theorem getitem_spec:
  "getitem k self =
     (case entry_at (root self) k of
        None \<Rightarrow> Inl (KeyError k)
      | Some e \<Rightarrow> (case val e of None \<Rightarrow> Inl (KeyError k) | Some v \<Rightarrow> Inr v),
      self)"
  by (simp add: getitem_lookup lookup_def split: option.splits)

theorem getitem_spec_witness:
  "getitem ''she'' example_trie = (Inr 1, example_trie)
   \<and> entry_at (root example_trie) ''sh'' \<noteq> None
   \<and> getitem ''sh'' example_trie = (Inl (KeyError ''sh''), example_trie)
   \<and> entry_at (root example_trie) ''shore'' = None
   \<and> getitem ''shore'' example_trie = (Inl (KeyError ''shore''), example_trie)"
proof -
  have 1: "(case entry_at (root example_trie) ''she'' of
              None \<Rightarrow> Inl (KeyError ''she'')
            | Some e \<Rightarrow> (case val e of None \<Rightarrow> Inl (KeyError ''she'') | Some v \<Rightarrow> Inr v))
           = Inr 1"
    by code_simp
  have 2: "(case entry_at (root example_trie) ''sh'' of
              None \<Rightarrow> Inl (KeyError ''sh'')
            | Some e \<Rightarrow> (case val e of None \<Rightarrow> Inl (KeyError ''sh'') | Some v \<Rightarrow> Inr v))
           = Inl (KeyError ''sh'')"
    by code_simp
  have 3: "entry_at (root example_trie) ''sh'' \<noteq> None"
    by code_simp
  have 4: "entry_at (root example_trie) ''shore'' = None"
    by code_simp
  from 1 2 3 4 getitem_spec [of "''she''" example_trie] getitem_spec [of "''sh''" example_trie]
    getitem_spec [of "''shore''" example_trie]
  show ?thesis by simp
qed

text \<open>
  C4. \<^verbatim>\<open>delete(k)\<close> fails with \<^verbatim>\<open>KeyError(k)\<close>, leaving the trie as it was, when the path
  of \<open>k\<close> does not exist or the node at its end has no value. Otherwise it returns, the node
  is still there with its slot cleared, the length is one less, and in the trie it leaves
  \<^verbatim>\<open>contains(k)\<close> is false and \<^verbatim>\<open>get(k)\<close> fails with \<^verbatim>\<open>KeyError(k)\<close>.
\<close>

theorem delitem_spec:
  "(entry_at (root self) k = None \<or> (\<exists>e. entry_at (root self) k = Some e \<and> \<not> has_value e)
      \<longrightarrow> delitem k self = (Inl (KeyError k), self))
   \<and> ((\<exists>e. entry_at (root self) k = Some e \<and> has_value e)
      \<longrightarrow> (\<exists>self'. delitem k self = (Inr (), self')
            \<and> (\<exists>e'. entry_at (root self') k = Some e' \<and> \<not> has_value e')
            \<and> len self' = len self - 1
            \<and> fst (contains k self') = Inr False
            \<and> fst (getitem k self') = Inl (KeyError k)))"
proof (intro conjI impI)
  assume "entry_at (root self) k = None \<or> (\<exists>e. entry_at (root self) k = Some e \<and> \<not> has_value e)"
  then have "lookup (root self) k = None"
    by (auto simp: lookup_def has_value_def)
  then show "delitem k self = (Inl (KeyError k), self)"
    by (simp add: delitem_sem)
next
  assume "\<exists>e. entry_at (root self) k = Some e \<and> has_value e"
  then obtain v where v: "lookup (root self) k = Some v"
    by (auto simp: lookup_def has_value_def)
  from delitem_ok [OF v] obtain self' where d: "delitem k self = (Inr (), self')"
    and l: "\<And>p. lookup (root self') p = (if p = k then None else lookup (root self) p)"
    and n: "trie_length self' = trie_length self - 1"
    and a: "\<And>p. (entry_at (root self') p = None) = (entry_at (root self) p = None)"
    by blast
  from v a [of k] l [of k] have "\<exists>e'. entry_at (root self') k = Some e' \<and> \<not> has_value e'"
    by (auto simp: lookup_def has_value_def split: option.splits)
  with d l [of k] n show "\<exists>self'. delitem k self = (Inr (), self')
            \<and> (\<exists>e'. entry_at (root self') k = Some e' \<and> \<not> has_value e')
            \<and> len self' = len self - 1
            \<and> fst (contains k self') = Inr False
            \<and> fst (getitem k self') = Inl (KeyError k)"
    by (simp add: len_def contains_lookup getitem_lookup)
qed

theorem delitem_spec_witness:
  "entry_at (root example_trie) ''shore'' = None
   \<and> delitem ''shore'' example_trie = (Inl (KeyError ''shore''), example_trie)
   \<and> (\<exists>e. entry_at (root example_trie) ''sh'' = Some e \<and> \<not> has_value e)
   \<and> delitem ''sh'' example_trie = (Inl (KeyError ''sh''), example_trie)
   \<and> (\<exists>e. entry_at (root example_trie) ''shells'' = Some e \<and> has_value e)
   \<and> (\<exists>self'. delitem ''shells'' example_trie = (Inr (), self')
        \<and> (\<exists>e'. entry_at (root self') ''shells'' = Some e' \<and> \<not> has_value e')
        \<and> len self' = len example_trie - 1
        \<and> fst (contains ''shells'' self') = Inr False
        \<and> fst (getitem ''shells'' self') = Inl (KeyError ''shells''))"
proof -
  have 1: "entry_at (root example_trie) ''shore'' = None"
    by code_simp
  have "(case entry_at (root example_trie) ''sh'' of None \<Rightarrow> False | Some e \<Rightarrow> \<not> has_value e)"
    by code_simp
  then have 2: "\<exists>e. entry_at (root example_trie) ''sh'' = Some e \<and> \<not> has_value e"
    by (simp del: entry_at.simps split: option.splits)
  have "(case entry_at (root example_trie) ''shells'' of None \<Rightarrow> False | Some e \<Rightarrow> has_value e)"
    by code_simp
  then have 3: "\<exists>e. entry_at (root example_trie) ''shells'' = Some e \<and> has_value e"
    by (simp del: entry_at.simps split: option.splits)
  from 1 2 3 delitem_spec [of example_trie "''shore''"] delitem_spec [of example_trie "''sh''"]
    delitem_spec [of example_trie "''shells''"]
  show ?thesis by blast
qed

text \<open>
  C5. The invariant "the tree is made of dicts, and the length is the number of nodes with a
  value" holds of the empty trie and of every trie the constructor builds, and every
  operation (set, delete, transform whether or not the caller's function raises, get,
  contains, the enumerations) leaves a trie that has it. Under the invariant \<^verbatim>\<open>len()\<close> is
  the number of reachable nodes with a set value slot, which is the number of distinct keys
  mapped to a value. Setting a key that is present leaves \<^verbatim>\<open>len()\<close> as it was.
\<close>

theorem length_invariant:
  fixes self :: "('k, 'v) trie" and s :: "(char, 'v) trie"
  shows "invar (empty_trie :: ('k, 'v) trie)
   \<and> (\<forall>t. init kvs = Inr t \<longrightarrow> invar (t :: ('k, 'v) trie))
   \<and> (invar self \<longrightarrow>
        invar (snd (setitem k v self)) \<and> invar (snd (delitem k self))
        \<and> invar (snd (transform k value_selector dflt self))
        \<and> invar (snd (getitem k self)) \<and> invar (snd (contains k self)))
   \<and> (invar s \<longrightarrow> invar (snd (items prefix s)) \<and> invar (snd (keys prefix s)))
   \<and> (invar self \<longrightarrow>
        len self = int (card {key. \<exists>e. entry_at (root self) key = Some e \<and> has_value e})
        \<and> len self = int (card {key. fst (contains key self) = Inr True}))
   \<and> (fst (contains k self) = Inr True \<longrightarrow> len (snd (setitem k v self)) = len self)"
proof -
  have reach: "{key. \<exists>e. entry_at (root self) key = Some e \<and> has_value e}
               = {key. fst (contains key self) = Inr True}"
    by (auto simp: contains_lookup lookup_def has_value_def split: option.splits)
  have reset: "len (snd (setitem k v self)) = len self" if "fst (contains k self) = Inr True"
    using setitem_sem [of k v self] that by (auto simp: contains_lookup len_def)
  have it: "snd (items prefix s) = s" "snd (keys prefix s) = s"
    by (simp_all add: items_sem keys_sem split: option.splits)
  have ops: "invar (snd (setitem k v self)) \<and> invar (snd (delitem k self))
        \<and> invar (snd (transform k value_selector dflt self))
        \<and> invar (snd (getitem k self)) \<and> invar (snd (contains k self))" if "invar self"
    using that invar_setitem [OF that, of k v] invar_delitem [OF that, of k]
      invar_transform [OF that, of k value_selector dflt]
    by (simp add: getitem_lookup contains_lookup)
  have card: "len self = int (card {key. \<exists>e. entry_at (root self) key = Some e \<and> has_value e})
        \<and> len self = int (card {key. fst (contains key self) = Inr True})" if "invar self"
    using len_card [OF that] by (simp add: reach)
  have new: "\<forall>t. init kvs = Inr t \<longrightarrow> invar (t :: ('k, 'v) trie)"
    using invar_init by blast
  have emp: "invar (empty_trie :: ('k, 'v) trie)"
    by (rule invar_empty)
  have enum: "invar s \<longrightarrow> invar (snd (items prefix s)) \<and> invar (snd (keys prefix s))"
    by (simp add: it)
  from emp new ops enum card reset show ?thesis
    by blast
qed

theorem length_invariant_witness:
  "invar example_trie
   \<and> invar (snd (setitem ''she'' 2 example_trie))
   \<and> invar (snd (delitem ''she'' example_trie))
   \<and> invar (snd (transform ''she'' (\<lambda>old. Inr (old - 60)) 0 example_trie))
   \<and> invar (snd (items ''sh'' example_trie))
   \<and> len example_trie = int (card {key. fst (contains key example_trie) = Inr True})
   \<and> fst (contains ''she'' example_trie) = Inr True
   \<and> len (snd (setitem ''she'' 2 example_trie)) = len example_trie
   \<and> len example_trie = 5"
proof -
  have 1: "invar example_trie"
    by code_simp
  have 2: "fst (contains ''she'' example_trie) = Inr True"
    by code_simp
  have 3: "len example_trie = 5"
    by code_simp
  from 1 2 3
    length_invariant [where self = example_trie and k = "''she''" and v = 2
      and s = example_trie and prefix = "''sh''" and kvs = "[]"
      and value_selector = "\<lambda>old. Inr (old - 60)" and dflt = 0]
  show ?thesis by blast
qed

text \<open>
  C6. When the caller's function returns \<open>new\<close> on the prior value of \<open>k\<close> (if \<open>k\<close> was
  mapped) or on the default (if it was not), \<^verbatim>\<open>transform(k, updater, d)\<close> returns, in the
  trie it leaves \<^verbatim>\<open>get(k)\<close> returns \<open>new\<close>, and \<^verbatim>\<open>len()\<close> is as before when \<open>k\<close> was
  mapped and one more when it was not.
\<close>

theorem transform_spec:
  fixes self :: "('k, 'v) trie"
  assumes "value_selector (case fst (getitem k self) of Inl e \<Rightarrow> dflt | Inr old \<Rightarrow> old) = Inr new"
  shows "\<exists>self'. transform k value_selector dflt self = (Inr (), self')
     \<and> fst (getitem k self') = Inr new
     \<and> len self' = (if fst (contains k self) = Inr True then len self else len self + 1)"
proof -
  from transform_sem [of self k value_selector dflt] obtain r d
    where rd: "find_loop True (root self) k = Some (r, d)"
      and t: "transform k value_selector dflt self =
       (case value_selector (case lookup (root self) k of None \<Rightarrow> dflt | Some old \<Rightarrow> old) of
          Inl e \<Rightarrow> (Inl e, self\<lparr>root := r\<rparr>)
        | Inr v \<Rightarrow> (Inr (), set_entry k d v (self\<lparr>root := r\<rparr>)))"
    by blast
  from assms have "value_selector (case lookup (root self) k of None \<Rightarrow> dflt | Some old \<Rightarrow> old)
                   = Inr new"
    by (simp add: getitem_or_default)
  with t have "transform k value_selector dflt self
               = (Inr (), set_entry k d new (self\<lparr>root := r\<rparr>))"
    by simp
  with set_entry_sem(1) [OF rd, of new k] set_entry_sem(2) [OF rd, of new]
  show ?thesis
    by (simp add: getitem_lookup contains_lookup len_def)
qed

theorem transform_spec_witness:
  "(\<exists>self'. transform ''today'' (\<lambda>old. Inr (old - 60)) 0 example_trie = (Inr (), self')
       \<and> fst (getitem ''today'' self') = Inr (- 55)
       \<and> len self' = len example_trie)
   \<and> (\<exists>self'. transform ''today'' (\<lambda>old. Inr (old + 1)) (0 :: int) empty_trie = (Inr (), self')
       \<and> fst (getitem ''today'' self') = Inr 1
       \<and> len self' = len (empty_trie :: (char, int) trie) + 1)"
proof -
  have 1: "(case fst (getitem ''today'' example_trie) of Inl e \<Rightarrow> 0 | Inr old \<Rightarrow> old) - 60
           = (- 55 :: int)"
    by code_simp
  have 2: "fst (contains ''today'' example_trie) = Inr True"
    by code_simp
  have 3: "(case fst (getitem ''today'' (empty_trie :: (char, int) trie)) of
              Inl e \<Rightarrow> 0 | Inr old \<Rightarrow> old) + 1
           = (1 :: int)"
    by code_simp
  have 4: "fst (contains ''today'' (empty_trie :: (char, int) trie)) \<noteq> Inr True"
    by code_simp
  from 1 2 3 4
    transform_spec [where value_selector = "\<lambda>old. Inr (old - 60)" and k = "''today''"
      and self = example_trie and dflt = 0 and new = "- 55"]
    transform_spec [where value_selector = "\<lambda>old. Inr (old + 1)" and k = "''today''"
      and self = "empty_trie :: (char, int) trie" and dflt = 0 and new = 1]
  show ?thesis
    by simp
qed

text \<open>
  C7. For a trie over string keys that satisfies the invariant and a prefix whose path exists,
  \<^verbatim>\<open>items(prefix)\<close> yields the pairs in the order of the work list (a node's own pair before
  those of its descendants, the child pushed last first), no key twice, and exactly the pairs
  \<open>(key, v)\<close> with \<open>key\<close> beginning with the prefix and \<^verbatim>\<open>get(key) = v\<close>;
  \<^verbatim>\<open>keys(prefix)\<close> yields the keys of these pairs in the same order; neither changes the trie.
  On the example trie \<^verbatim>\<open>keys("sh")\<close> yields \<^verbatim>\<open>she\<close>, then \<^verbatim>\<open>shells\<close>.
\<close>

theorem items_spec:
  fixes self :: "(char, 'v) trie"
  assumes "invar self" and "entry_at (root self) prefix = Some start"
  shows "\<exists>kvs. items prefix self = (Inr kvs, self)
     \<and> keys prefix self = (Inr (map fst kvs), self)
     \<and> kvs = preorder_lifo prefix start
     \<and> distinct (map fst kvs)
     \<and> set kvs = {(key, v). (\<exists>rest. key = prefix @ rest) \<and> fst (getitem key self) = Inr v}"
proof -
  from assms have wf: "wf_entry start"
    by (auto simp: invar_def intro: entry_at_wf)
  have "((q, x) \<in> set (preorder_lifo prefix start))
        = ((\<exists>rest. q = prefix @ rest) \<and> fst (getitem q self) = Inr x)" for q x
  proof -
    have "((q, x) \<in> set (preorder_lifo prefix start))
          = (\<exists>rest. q = prefix @ rest \<and> lookup start rest = Some x)"
      using in_preorder_lifo [OF wf] .
    also have "\<dots> = (\<exists>rest. q = prefix @ rest \<and> lookup (root self) q = Some x)"
      using lookup_append [OF assms(2)] by auto
    also have "\<dots> = ((\<exists>rest. q = prefix @ rest) \<and> fst (getitem q self) = Inr x)"
      by (auto simp: getitem_lookup split: option.splits)
    finally show ?thesis .
  qed
  then have "set (preorder_lifo prefix start)
        = {(key, v). (\<exists>rest. key = prefix @ rest) \<and> fst (getitem key self) = Inr v}"
    by auto
  with distinct_preorder_lifo [OF wf, of prefix] assms(2) show ?thesis
    by (simp add: items_sem keys_sem)
qed

theorem items_spec_witness:
  "invar example_trie
   \<and> entry_at (root example_trie) ''sh''
       = Some (Entry None [(CHR ''e'', Entry (Some 1) [(CHR ''l'', Entry None
           [(CHR ''l'', Entry None [(CHR ''s'', Entry (Some 19) [])])])])])
   \<and> items ''sh'' example_trie = (Inr [(''she'', 1), (''shells'', 19)], example_trie)
   \<and> keys ''sh'' example_trie = (Inr [''she'', ''shells''], example_trie)
   \<and> {(key, v). (\<exists>rest. key = ''sh'' @ rest) \<and> fst (getitem key example_trie) = Inr v}
       = {(''she'', 1), (''shells'', 19)}"
proof -
  have 1: "invar example_trie"
    by code_simp
  have 2: "entry_at (root example_trie) ''sh''
       = Some (Entry None [(CHR ''e'', Entry (Some 1) [(CHR ''l'', Entry None
           [(CHR ''l'', Entry None [(CHR ''s'', Entry (Some 19) [])])])])])"
    by code_simp
  have 3: "preorder_lifo ''sh'' (Entry None [(CHR ''e'', Entry (Some (1 :: int))
             [(CHR ''l'', Entry None [(CHR ''l'', Entry None [(CHR ''s'', Entry (Some 19) [])])])])])
           = [(''she'', 1), (''shells'', 19)]"
    by code_simp
  from items_spec [OF 1 2] 1 2 3 show ?thesis
    by auto
qed

text \<open>
  C8. A value that is set is told from a slot that is not, whatever the value: for every key
  \<open>k\<close> and every Python value \<open>v\<close> (\<^verbatim>\<open>None\<close>, \<^verbatim>\<open>0\<close> and \<^verbatim>\<open>""\<close> among them), after
  \<^verbatim>\<open>set(k, v)\<close> the node of \<open>k\<close> has a value, \<^verbatim>\<open>contains(k)\<close> is true and \<^verbatim>\<open>get(k)\<close> returns
  \<open>v\<close>; and a proper prefix \<open>p\<close> of \<open>k\<close> that was not mapped has its node in the tree, as a
  branch point, with no value: \<^verbatim>\<open>contains(p)\<close> is false and \<^verbatim>\<open>get(p)\<close> fails.
\<close>

theorem set_value_distinguishable:
  fixes self :: "('k, pyval) trie"
  shows "\<exists>self'. setitem k v self = (Inr (), self')
     \<and> (\<exists>e. entry_at (root self') k = Some e \<and> has_value e)
     \<and> fst (contains k self') = Inr True
     \<and> fst (getitem k self') = Inr v
     \<and> (\<forall>p. fst (contains p self) = Inr False \<and> p \<noteq> k \<and> (\<exists>rest. k = p @ rest) \<longrightarrow>
            (\<exists>e. entry_at (root self') p = Some e \<and> \<not> has_value e)
            \<and> fst (contains p self') = Inr False
            \<and> fst (getitem p self') = Inl (KeyError p))"
proof -
  from setitem_sem [of k v self] setitem_path [of k v self] obtain self' d
    where s: "setitem k v self = (Inr (), self')"
      and l: "\<And>p. lookup (root self') p = (if p = k then Some v else lookup (root self) p)"
      and d: "entry_at (root self') k = Some d"
    by auto
  from l [of k] d have hv: "has_value d"
    by (simp add: lookup_def has_value_def)
  have branch: "(\<exists>e. entry_at (root self') p = Some e \<and> \<not> has_value e)
            \<and> fst (contains p self') = Inr False
            \<and> fst (getitem p self') = Inl (KeyError p)"
    if "fst (contains p self) = Inr False" "p \<noteq> k" "\<exists>rest. k = p @ rest" for p
  proof -
    from that(1) have "lookup (root self) p = None" by (simp add: contains_lookup)
    with l [of p] that(2) have n: "lookup (root self') p = None" by simp
    from that(3) d obtain e where e: "entry_at (root self') p = Some e"
      using entry_at_prefix by blast
    with n have "\<not> has_value e" by (simp add: lookup_def has_value_def)
    with e n show ?thesis by (simp add: contains_lookup getitem_lookup)
  qed
  from s d hv l [of k] branch show ?thesis
    by (auto simp: contains_lookup getitem_lookup)
qed

theorem set_value_distinguishable_witness:
  "\<exists>self'. setitem ''ab'' PyNone empty_trie = (Inr (), self')
     \<and> (\<exists>e. entry_at (root self') ''ab'' = Some e \<and> has_value e)
     \<and> fst (contains ''ab'' self') = Inr True
     \<and> fst (getitem ''ab'' self') = Inr PyNone
     \<and> (\<exists>e. entry_at (root self') ''a'' = Some e \<and> \<not> has_value e)
     \<and> fst (contains ''a'' self') = Inr False
     \<and> fst (getitem ''a'' self') = Inl (KeyError ''a'')"
proof -
  have 1: "fst (contains ''a'' (empty_trie :: (char, pyval) trie)) = Inr False"
    by code_simp
  have 2: "''a'' \<noteq> ''ab''"
    by simp
  have 3: "\<exists>rest. ''ab'' = ''a'' @ rest"
    by simp
  from set_value_distinguishable [of "''ab''" PyNone empty_trie] 1 2 3 show ?thesis
    by blast
qed

text \<open>
  C9. The specification: a \<^verbatim>\<open>delete\<close> leaves every other key as it was, and the nodes it
  leaves unpruned are not observable through \<^verbatim>\<open>get\<close>, \<^verbatim>\<open>contains\<close>, \<^verbatim>\<open>len\<close> or
  enumeration. The code: \<^verbatim>\<open>Trie(she=1)\<close>, and \<^verbatim>\<open>Trie(she=1, shells=19)\<close> after
  \<^verbatim>\<open>del trie['shells']\<close>, both satisfy the invariant, have length 1, answer \<^verbatim>\<open>get\<close> and
  \<^verbatim>\<open>contains\<close> alike and enumerate the same pair; but the enumerations of the prefixes
  \<^verbatim>\<open>"shel"\<close> and \<^verbatim>\<open>"shells"\<close> raise \<^verbatim>\<open>RuntimeError\<close> on the first, where the path does
  not exist, and yield the empty sequence on the second, where the nodes that the delete left
  are still in the tree.
\<close>

theorem dead_nodes_show_in_enumeration:
  "invar she_trie \<and> invar she_shells_deleted
   \<and> len she_trie = 1 \<and> len she_shells_deleted = 1
   \<and> fst (getitem ''she'' she_trie) = Inr 1
   \<and> fst (getitem ''she'' she_shells_deleted) = Inr 1
   \<and> fst (getitem ''shells'' she_trie) = Inl (KeyError ''shells'')
   \<and> fst (getitem ''shells'' she_shells_deleted) = Inl (KeyError ''shells'')
   \<and> fst (contains ''shells'' she_trie) = Inr False
   \<and> fst (contains ''shells'' she_shells_deleted) = Inr False
   \<and> fst (items [] she_trie) = Inr [(''she'', 1)]
   \<and> fst (items [] she_shells_deleted) = Inr [(''she'', 1)]
   \<and> fst (items ''shel'' she_trie) = Inl RuntimeError
   \<and> fst (items ''shel'' she_shells_deleted) = Inr []
   \<and> fst (keys ''shells'' she_trie) = Inl RuntimeError
   \<and> fst (keys ''shells'' she_shells_deleted) = Inr []"
  by code_simp

text \<open>
  C10. When the caller's function raises on the prior value of \<open>k\<close> (or on the default),
  \<^verbatim>\<open>transform\<close> raises the same exception, and in the trie it leaves \<^verbatim>\<open>len()\<close>, and
  \<^verbatim>\<open>get(p)\<close> and \<^verbatim>\<open>contains(p)\<close> for every key \<open>p\<close> (\<open>k\<close> included), are what they were.
  The path of \<open>k\<close> is in the tree; every node that was not there before has no value; the
  invariant is kept.
\<close>

theorem transform_raises:
  fixes self :: "('k, 'v) trie"
  assumes "value_selector (case fst (getitem k self) of Inl e \<Rightarrow> dflt | Inr old \<Rightarrow> old) = Inl exn"
  shows "\<exists>self'. transform k value_selector dflt self = (Inl exn, self')
     \<and> len self' = len self
     \<and> (\<forall>p. fst (getitem p self') = fst (getitem p self)
            \<and> fst (contains p self') = fst (contains p self))
     \<and> (\<exists>e. entry_at (root self') k = Some e)
     \<and> (\<forall>p e. entry_at (root self) p = None \<and> entry_at (root self') p = Some e
            \<longrightarrow> \<not> has_value e)
     \<and> (invar self \<longrightarrow> invar self')"
proof -
  from transform_sem [of self k value_selector dflt] obtain r d
    where rd: "find_loop True (root self) k = Some (r, d)"
      and t: "transform k value_selector dflt self =
       (case value_selector (case lookup (root self) k of None \<Rightarrow> dflt | Some old \<Rightarrow> old) of
          Inl e \<Rightarrow> (Inl e, self\<lparr>root := r\<rparr>)
        | Inr v \<Rightarrow> (Inr (), set_entry k d v (self\<lparr>root := r\<rparr>)))"
    by blast
  from assms have "value_selector (case lookup (root self) k of None \<Rightarrow> dflt | Some old \<Rightarrow> old)
                   = Inl exn"
    by (simp add: getitem_or_default)
  with t have t': "transform k value_selector dflt self = (Inl exn, self\<lparr>root := r\<rparr>)"
    by simp
  have same: "lookup r p = lookup (root self) p" for p
    using find_loop_True_lookup [OF rd] .
  have fresh: "\<not> has_value e" if "entry_at (root self) p = None" "entry_at r p = Some e" for p e
    using same [of p] that by (simp add: lookup_def has_value_def)
  have inv: "invar (self\<lparr>root := r\<rparr>)" if "invar self"
    using that find_loop_True_count [OF rd] find_loop_True_wf [OF rd] by (simp add: invar_def)
  from find_loop_True_dest [OF rd] have "\<exists>e. entry_at r k = Some e" by simp
  with t' same fresh inv show ?thesis
    by (auto simp: len_def getitem_lookup contains_lookup)
qed

theorem transform_raises_witness:
  "\<exists>self'. transform ''shore'' (\<lambda>old. Inl (Exception ''ValueError'')) 0 example_trie
              = (Inl (Exception ''ValueError''), self')
     \<and> len self' = len example_trie
     \<and> fst (getitem ''shore'' self') = fst (getitem ''shore'' example_trie)
     \<and> fst (contains ''shore'' self') = fst (contains ''shore'' example_trie)
     \<and> entry_at (root example_trie) ''shore'' = None
     \<and> (\<exists>e. entry_at (root self') ''shore'' = Some e \<and> \<not> has_value e)
     \<and> invar self'"
proof -
  have 2: "entry_at (root example_trie) ''shore'' = None"
    by code_simp
  have 3: "invar example_trie"
    by code_simp
  from 2 3
    transform_raises [where value_selector = "\<lambda>old. Inl (Exception ''ValueError'')"
      and k = "''shore''" and self = example_trie and dflt = 0
      and exn = "Exception ''ValueError''"]
  obtain self' where t: "transform ''shore'' (\<lambda>old. Inl (Exception ''ValueError'')) 0 example_trie
              = (Inl (Exception ''ValueError''), self')"
    and l: "len self' = len example_trie"
    and g: "\<And>p. fst (getitem p self') = fst (getitem p example_trie)
            \<and> fst (contains p self') = fst (contains p example_trie)"
    and e: "\<exists>e. entry_at (root self') ''shore'' = Some e"
    and n: "\<And>p e. entry_at (root example_trie) p = None \<and> entry_at (root self') p = Some e
            \<Longrightarrow> \<not> has_value e"
    and i: "invar self'"
    by blast
  from e n [of "''shore''"] 2
  have "\<exists>e. entry_at (root self') ''shore'' = Some e \<and> \<not> has_value e"
    by blast
  with t l g [of "''shore''"] 2 i show ?thesis
    by blast
qed

end
